theory Spec2Isabelle
  imports Main "HOL-Library.Word" "HOL-Library.Code_Target_Numeral"
begin

section \<open>The text buffer of \<^verbatim>\<open>unc_text.cpp\<close>\<close>

subsection \<open>Machine types\<close>

text \<open>
  The C++ type \<^verbatim>\<open>int\<close> is a 32-bit two's complement word: arithmetic wraps, \<open>sint\<close>
  reads the signed value, and converting a \<^verbatim>\<open>size_t\<close> to \<^verbatim>\<open>int\<close> keeps the low 32
  bits (\<open>of_nat\<close>). A \<^verbatim>\<open>char\<close> and a byte of the display cache are 8-bit words.

  A \<^verbatim>\<open>size_t\<close> (an index, a length) is a natural number below \<open>2 ^ 64\<close>. Where the
  source subtracts or adds such values in a way that can leave that range, the reduction
  modulo \<open>2 ^ 64\<close> is written out (\<open>size_t_sub\<close>, \<open>size_t_add\<close>). An increment under a
  loop guard that bounds the index by a size is written as plain \<open>+ 1\<close>.
\<close>

type_synonym cint = "32 word"
type_synonym cchar = "8 word"
type_synonym uint8 = "8 word"

definition SIZE_MOD :: nat where
  "SIZE_MOD = 2 ^ 64"

definition size_t_add :: "nat \<Rightarrow> nat \<Rightarrow> nat" where
  "size_t_add a b = (a + b) mod SIZE_MOD"

definition size_t_sub :: "nat \<Rightarrow> nat \<Rightarrow> nat" where
  "size_t_sub a b = (a mod SIZE_MOD + (SIZE_MOD - b mod SIZE_MOD)) mod SIZE_MOD"

text \<open>
  A \<^verbatim>\<open>char\<close> compared with or assigned to an \<^verbatim>\<open>int\<close> is promoted with its sign
  (plain \<^verbatim>\<open>char\<close> is signed on the usual targets).
\<close>

definition char_to_int :: "cchar \<Rightarrow> cint" where
  "char_to_int c = scast c"


text \<open>
  Reading or writing a sequence outside its bounds, and erasing or inserting at an
  iterator outside it, is undefined behaviour in the source; the model returns the error.
\<close>

datatype error = OutOfBounds

subsection \<open>The buffer\<close>

record unc_text =
  m_chars :: "cint list"
  m_logtext :: "uint8 list"
  m_logok :: bool

definition size_text :: "unc_text \<Rightarrow> nat" where
  "size_text t = length (m_chars t)"

fun fix_len_idx :: "nat \<Rightarrow> nat \<Rightarrow> nat \<Rightarrow> nat" where
  "fix_len_idx sz idx len =
     (if idx \<ge> sz then 0
      else (let left = sz - idx in (if len > left then left else len)))"

subsection \<open>compare\<close>

text \<open>
  The loop of \<^verbatim>\<open>compare\<close> either returns from the function or runs to its end and
  leaves the index behind. \<^verbatim>\<open>unc_tolower\<close> is declared in \<^verbatim>\<open>unc_ctype.h\<close>; the
  comparison takes it as the parameter \<open>lower\<close>. The guard \<open>idx < max_idx\<close> keeps both
  reads inside the two sequences.

  The last \<^verbatim>\<open>return\<close> is a conditional between a \<^verbatim>\<open>size_t\<close> and an \<^verbatim>\<open>int\<close>: the
  \<^verbatim>\<open>int\<close> branch is widened to \<^verbatim>\<open>size_t\<close> and the result cut back to \<^verbatim>\<open>int\<close>,
  which gives the \<^verbatim>\<open>int\<close> back; the \<^verbatim>\<open>size_t\<close> branch keeps its low 32 bits.
\<close>

datatype loop_exit = Return cint | Exit nat

function compare_loop ::
  "(cint \<Rightarrow> cint) \<Rightarrow> cint list \<Rightarrow> cint list \<Rightarrow> nat \<Rightarrow> nat \<Rightarrow> loop_exit" where
  "compare_loop lower c1 c2 max_idx idx =
     (if idx < max_idx then
        (if c1 ! idx = c2 ! idx then compare_loop lower c1 c2 max_idx (idx + 1)
         else (let diff = lower (c1 ! idx) - lower (c2 ! idx) in
               if diff = 0 then Return (- (c1 ! idx - c2 ! idx))
               else Return diff))
      else Exit idx)"
  by pat_completeness auto
termination
  by (relation "measure (\<lambda>(lower, c1, c2, max_idx, idx). max_idx - idx)") auto

definition compare :: "(cint \<Rightarrow> cint) \<Rightarrow> unc_text \<Rightarrow> unc_text \<Rightarrow> nat \<Rightarrow> cint" where
  "compare lower ref1 ref2 len =
     (let len1 = size_text ref1;
          len2 = size_text ref2;
          max_idx = min len (min len1 len2)
      in case compare_loop lower (m_chars ref1) (m_chars ref2) max_idx 0 of
           Return v \<Rightarrow> v
         | Exit idx \<Rightarrow>
             (if idx = len then 0
              else if len1 > len2 then of_nat (len1 - len2)
              else - of_nat (len2 - len1)))"

subsection \<open>The display cache\<close>

text \<open>
  \<^verbatim>\<open>encode_utf8\<close> is declared in \<^verbatim>\<open>unicode.h\<close>: it takes a code point and the byte
  vector it writes to. \<open>update_logtext\<close> takes it as a parameter; the loop runs over
  \<open>m_chars\<close> in order with the cache as it stands.
\<close>

primrec logtext_loop ::
  "(cint \<Rightarrow> uint8 list \<Rightarrow> uint8 list) \<Rightarrow> cint list \<Rightarrow> uint8 list \<Rightarrow> uint8 list" where
  "logtext_loop encode_utf8 [] logtext = logtext"
| "logtext_loop encode_utf8 (m_char # rest) logtext =
     logtext_loop encode_utf8 rest
       (encode_utf8 (if m_char = 10 then 0x2424 else if m_char = 13 then 0x240d else m_char)
          logtext)"

definition update_logtext ::
  "(cint \<Rightarrow> uint8 list \<Rightarrow> uint8 list) \<Rightarrow> unc_text \<Rightarrow> unc_text" where
  "update_logtext encode_utf8 t =
     (if m_logok t then t
      else t\<lparr>m_logtext := logtext_loop encode_utf8 (m_chars t) [] @ [0], m_logok := True\<rparr>)"

subsection \<open>set, resize, clear\<close>

text \<open>\<^verbatim>\<open>resize\<close> of the sequence keeps the elements below the new size and appends zeros.\<close>

definition vector_resize :: "cint list \<Rightarrow> nat \<Rightarrow> cint list" where
  "vector_resize cs n = take n cs @ replicate (n - length cs) 0"

text \<open>The copying loop of the two ranged \<^verbatim>\<open>set\<close> overloads.\<close>

function copy_loop :: "cint list \<Rightarrow> cint list \<Rightarrow> nat \<Rightarrow> nat \<Rightarrow> nat \<Rightarrow> error + cint list" where
  "copy_loop dst src di idx len =
     (if len > 0 then
        (if di < length dst \<and> idx < length src
         then copy_loop (dst[di := src ! idx]) src (di + 1) (idx + 1) (len - 1)
         else Inl OutOfBounds)
      else Inr dst)"
  by pat_completeness auto
termination
  by (relation "measure (\<lambda>(dst, src, di, idx, len). len)") auto

text \<open>The loop of the two overloads that take text: every \<^verbatim>\<open>char\<close> is widened.\<close>

function fill_loop :: "cint list \<Rightarrow> cchar list \<Rightarrow> nat \<Rightarrow> nat \<Rightarrow> error + cint list" where
  "fill_loop dst ascii_text idx len =
     (if idx < len then
        (if idx < length dst \<and> idx < length ascii_text
         then fill_loop (dst[idx := char_to_int (ascii_text ! idx)]) ascii_text (idx + 1) len
         else Inl OutOfBounds)
      else Inr dst)"
  by pat_completeness auto
termination
  by (relation "measure (\<lambda>(dst, ascii_text, idx, len). len - idx)") auto

definition set_ch :: "unc_text \<Rightarrow> cint \<Rightarrow> unc_text" where
  "set_ch t ch = t\<lparr>m_chars := [] @ [ch], m_logok := False\<rparr>"

definition set_text :: "unc_text \<Rightarrow> unc_text \<Rightarrow> unc_text" where
  "set_text t ref = t\<lparr>m_chars := m_chars ref, m_logok := False\<rparr>"

definition set_range :: "unc_text \<Rightarrow> unc_text \<Rightarrow> nat \<Rightarrow> nat \<Rightarrow> error + unc_text" where
  "set_range t ref idx len =
     (let t0 = t\<lparr>m_logok := False\<rparr>;
          ref_size = size_text ref
      in if len = ref_size then Inr (t0\<lparr>m_chars := m_chars ref\<rparr>)
         else (case copy_loop (vector_resize (m_chars t0) len) (m_chars ref) 0 idx
                      (fix_len_idx ref_size idx len) of
                 Inl e \<Rightarrow> Inl e
               | Inr cs \<Rightarrow> Inr (t0\<lparr>m_chars := cs\<rparr>)))"

text \<open>
  A \<^verbatim>\<open>std::string\<close> and a C string are the list of their characters; \<^verbatim>\<open>strlen\<close> of a
  C string is the length of that list (the terminating zero is not part of it).
\<close>

definition set_string :: "unc_text \<Rightarrow> cchar list \<Rightarrow> error + unc_text" where
  "set_string t ascii_text =
     (let len = length ascii_text
      in case fill_loop (vector_resize (m_chars t) len) ascii_text 0 len of
           Inl e \<Rightarrow> Inl e
         | Inr cs \<Rightarrow> Inr (t\<lparr>m_chars := cs, m_logok := False\<rparr>))"

definition set_cstr :: "unc_text \<Rightarrow> cchar list \<Rightarrow> error + unc_text" where
  "set_cstr t ascii_text =
     (let len = length ascii_text
      in case fill_loop (vector_resize (m_chars t) len) ascii_text 0 len of
           Inl e \<Rightarrow> Inl e
         | Inr cs \<Rightarrow> Inr (t\<lparr>m_chars := cs, m_logok := False\<rparr>))"

definition set_data :: "unc_text \<Rightarrow> cint list \<Rightarrow> nat \<Rightarrow> nat \<Rightarrow> error + unc_text" where
  "set_data t data idx len =
     (case copy_loop (vector_resize (m_chars t) len) data 0 idx
             (fix_len_idx (length data) idx len) of
        Inl e \<Rightarrow> Inl e
      | Inr cs \<Rightarrow> Inr (t\<lparr>m_chars := cs, m_logok := False\<rparr>))"

definition resize :: "unc_text \<Rightarrow> nat \<Rightarrow> unc_text" where
  "resize t new_size =
     (if size_text t = new_size then t
      else t\<lparr>m_chars := vector_resize (m_chars t) new_size, m_logok := False\<rparr>)"

definition clear :: "unc_text \<Rightarrow> unc_text" where
  "clear t = t\<lparr>m_chars := [], m_logok := False\<rparr>"

subsection \<open>insert, append, erase\<close>

definition insert_ch :: "unc_text \<Rightarrow> nat \<Rightarrow> cint \<Rightarrow> error + unc_text" where
  "insert_ch t idx ch =
     (if idx \<le> length (m_chars t)
      then Inr (t\<lparr>m_chars := take idx (m_chars t) @ [ch] @ drop idx (m_chars t),
                 m_logok := False\<rparr>)
      else Inl OutOfBounds)"

definition insert_text :: "unc_text \<Rightarrow> nat \<Rightarrow> unc_text \<Rightarrow> error + unc_text" where
  "insert_text t idx ref =
     (if idx \<le> length (m_chars t)
      then Inr (t\<lparr>m_chars := take idx (m_chars t) @ m_chars ref @ drop idx (m_chars t),
                 m_logok := False\<rparr>)
      else Inl OutOfBounds)"

definition append_ch :: "unc_text \<Rightarrow> cint \<Rightarrow> unc_text" where
  "append_ch t ch = t\<lparr>m_chars := m_chars t @ [ch], m_logok := False\<rparr>"

definition append_text :: "unc_text \<Rightarrow> unc_text \<Rightarrow> unc_text" where
  "append_text t ref = t\<lparr>m_chars := m_chars t @ m_chars ref, m_logok := False\<rparr>"

text \<open>
  Modelled from the spec: the constructors of \<^verbatim>\<open>unc_text.h\<close>, which is not among the
  sources. A buffer is "created empty or from a source": the temporary of the three
  \<^verbatim>\<open>append\<close> overloads below is the empty buffer set from its source.
\<close>

definition empty_text :: unc_text where
  "empty_text = \<lparr>m_chars = [], m_logtext = [], m_logok = False\<rparr>"

definition append_string :: "unc_text \<Rightarrow> cchar list \<Rightarrow> error + unc_text" where
  "append_string t ascii_text =
     (case set_string empty_text ascii_text of
        Inl e \<Rightarrow> Inl e
      | Inr tmp \<Rightarrow> Inr (append_text t tmp))"

definition append_cstr :: "unc_text \<Rightarrow> cchar list \<Rightarrow> error + unc_text" where
  "append_cstr t ascii_text =
     (case set_cstr empty_text ascii_text of
        Inl e \<Rightarrow> Inl e
      | Inr tmp \<Rightarrow> Inr (append_text t tmp))"

definition append_data :: "unc_text \<Rightarrow> cint list \<Rightarrow> nat \<Rightarrow> nat \<Rightarrow> error + unc_text" where
  "append_data t data idx len =
     (case set_data empty_text data idx len of
        Inl e \<Rightarrow> Inl e
      | Inr tmp \<Rightarrow> Inr (append_text t tmp))"

definition erase :: "unc_text \<Rightarrow> nat \<Rightarrow> nat \<Rightarrow> error + unc_text" where
  "erase t idx len =
     (if len = 0 then Inr t
      else if idx + len \<le> length (m_chars t)
      then Inr (t\<lparr>m_chars := take idx (m_chars t) @ drop (idx + len) (m_chars t)\<rparr>)
      else Inl OutOfBounds)"

subsection \<open>find and rfind\<close>

text \<open>
  The inner loop, the same text in \<^verbatim>\<open>find\<close> and \<^verbatim>\<open>rfind\<close>: \<open>Inr True\<close> when
  \<^verbatim>\<open>match\<close> is still true at its end, \<open>Inr False\<close> after the \<^verbatim>\<open>break\<close>. The sum
  \<^verbatim>\<open>idx + ii\<close> is a \<^verbatim>\<open>size_t\<close> sum. The results of both searches are the index cut
  to an \<^verbatim>\<open>int\<close>, or \<open>-1\<close>.
\<close>

function match_loop :: "cint list \<Rightarrow> cchar list \<Rightarrow> nat \<Rightarrow> nat \<Rightarrow> error + bool" where
  "match_loop cs text idx ii =
     (if ii < length text then
        (let p = size_t_add idx ii in
         if p < length cs then
           (if cs ! p \<noteq> char_to_int (text ! ii) then Inr False
            else match_loop cs text idx (ii + 1))
         else Inl OutOfBounds)
      else Inr True)"
  by pat_completeness auto
termination
  by (relation "measure (\<lambda>(cs, text, idx, ii). length text - ii)") auto

function find_loop :: "cint list \<Rightarrow> cchar list \<Rightarrow> nat \<Rightarrow> nat \<Rightarrow> error + cint" where
  "find_loop cs text midx idx =
     (if idx \<le> midx then
        (case match_loop cs text idx 0 of
           Inl e \<Rightarrow> Inl e
         | Inr match \<Rightarrow> if match then Inr (of_nat idx) else find_loop cs text midx (idx + 1))
      else Inr (- 1))"
  by pat_completeness auto
termination
  by (relation "measure (\<lambda>(cs, text, midx, idx). Suc midx - idx)") auto

definition find_text :: "unc_text \<Rightarrow> cchar list \<Rightarrow> nat \<Rightarrow> error + cint" where
  "find_text t text sidx =
     (let len = length text;
          si = size_text t
      in if si < len then Inr (- 1)
         else find_loop (m_chars t) text (si - len) sidx)"

function rfind_loop :: "cint list \<Rightarrow> cchar list \<Rightarrow> nat \<Rightarrow> error + cint" where
  "rfind_loop cs text idx =
     (if idx \<noteq> 0 then
        (case match_loop cs text idx 0 of
           Inl e \<Rightarrow> Inl e
         | Inr match \<Rightarrow> if match then Inr (of_nat idx) else rfind_loop cs text (idx - 1))
      else Inr (- 1))"
  by pat_completeness auto
termination
  by (relation "measure (\<lambda>(cs, text, idx). idx)") auto

definition rfind :: "unc_text \<Rightarrow> cchar list \<Rightarrow> nat \<Rightarrow> error + cint" where
  "rfind t text sidx =
     (let len = length text;
          midx = size_t_sub (size_text t) len;
          sidx' = (if sidx > midx then midx else sidx)
      in rfind_loop (m_chars t) text sidx')"

subsection \<open>replace\<close>




subsection \<open>Vocabulary of the properties\<close>

text \<open>
  Modelled from the spec: \<^verbatim>\<open>unc_tolower\<close> of \<^verbatim>\<open>unc_ctype.h\<close>, which is not among the
  sources: "a code-point lowercasing function (input: one code point; output: its
  lowercase form, identity if not cased)". It is used only where a property is evaluated
  on concrete text; \<open>compare\<close> itself takes the function as a parameter.
\<close>

definition unc_tolower :: "cint \<Rightarrow> cint" where
  "unc_tolower ch = (if 65 \<le> ch \<and> ch \<le> 90 then ch + 32 else ch)"

text \<open>The pattern \<open>text\<close> stands in \<open>cs\<close> at index \<open>i\<close>, every element in place.\<close>

definition occurs_at :: "cint list \<Rightarrow> cchar list \<Rightarrow> nat \<Rightarrow> bool" where
  "occurs_at cs text i =
     (i + length text \<le> length cs \<and> take (length text) (drop i cs) = map char_to_int text)"



declare compare_loop.simps [simp del]
declare copy_loop.simps [simp del]
declare fill_loop.simps [simp del]
declare match_loop.simps [simp del]
declare find_loop.simps [simp del]
declare rfind_loop.simps [simp del]

section \<open>Properties\<close>

subsection \<open>Conversions between sizes and \<^verbatim>\<open>int\<close>\<close>

lemma sint_of_nat_small: "n < 2 ^ 31 \<Longrightarrow> sint (of_nat n :: cint) = int n"
  by (simp add: signed_of_nat signed_take_bit_int_eq_self)

lemma sint_neg_of_nat_small:
  assumes "n < 2 ^ 31"
  shows "sint (- (of_nat n :: cint)) = - int n"
proof -
  have "sint (- (of_nat n :: cint)) = signed_take_bit 31 (- sint (of_nat n :: cint))"
    by (simp add: sint_word_ariths)
  also have "\<dots> = signed_take_bit 31 (- int n)"
    using assms by (simp add: sint_of_nat_small)
  also have "\<dots> = - int n"
    using assms by (intro signed_take_bit_int_eq_self) auto
  finally show ?thesis .
qed



subsection \<open>compare\<close>

lemma compare_loop_differ:
  assumes "idx \<le> i" "i < max_idx" "\<forall>j. idx \<le> j \<and> j < i \<longrightarrow> c1 ! j = c2 ! j" "c1 ! i \<noteq> c2 ! i"
  shows "compare_loop lower c1 c2 max_idx idx =
     (if lower (c1 ! i) - lower (c2 ! i) = 0 then Return (- (c1 ! i - c2 ! i))
      else Return (lower (c1 ! i) - lower (c2 ! i)))"
  using assms
proof (induction "i - idx" arbitrary: idx)
  case 0
  then have "idx = i" by simp
  with 0 show ?case by (simp add: compare_loop.simps [of _ _ _ _ i] Let_def)
next
  case (Suc n)
  then have lt: "idx < i" and eq: "c1 ! idx = c2 ! idx" by auto
  have "compare_loop lower c1 c2 max_idx idx = compare_loop lower c1 c2 max_idx (idx + 1)"
    using lt Suc.prems eq by (simp add: compare_loop.simps [of _ _ _ _ idx])
  also have "\<dots> = (if lower (c1 ! i) - lower (c2 ! i) = 0 then Return (- (c1 ! i - c2 ! i))
      else Return (lower (c1 ! i) - lower (c2 ! i)))"
    using Suc.hyps(2) lt Suc.prems by (intro Suc.hyps(1)) auto
  finally show ?case .
qed

lemma compare_loop_agree:
  assumes "idx \<le> max_idx" "\<forall>j. idx \<le> j \<and> j < max_idx \<longrightarrow> c1 ! j = c2 ! j"
  shows "compare_loop lower c1 c2 max_idx idx = Exit max_idx"
  using assms
proof (induction "max_idx - idx" arbitrary: idx)
  case 0
  then show ?case by (simp add: compare_loop.simps [of _ _ _ _ idx])
next
  case (Suc n)
  then have lt: "idx < max_idx" and eq: "c1 ! idx = c2 ! idx" by auto
  have "compare_loop lower c1 c2 max_idx idx = compare_loop lower c1 c2 max_idx (idx + 1)"
    using lt eq by (simp add: compare_loop.simps [of _ _ _ _ idx])
  also have "\<dots> = Exit max_idx"
    using Suc.hyps(2) lt Suc.prems by (intro Suc.hyps(1)) auto
  finally show ?case .
qed

text \<open>
  Claim C3, as amended. Where \<open>compare\<close> meets the first position \<open>i\<close> at which the two
  buffers differ, and the two code points there have the same lower-case form, it returns
  the negated raw difference \<open>- (a[i] - b[i])\<close>. A buffer with the lower-case letter
  (32 above the upper-case one) gets \<open>-32\<close> against the buffer with the upper-case
  letter, and the other way round \<open>+32\<close>: lower case sorts first.
\<close>

theorem compare_case_only:
  assumes "i < min len (min (size_text a) (size_text b))"
    and "\<forall>j<i. m_chars a ! j = m_chars b ! j"
    and "m_chars a ! i \<noteq> m_chars b ! i"
    and "lower (m_chars a ! i) = lower (m_chars b ! i)"
  shows "compare lower a b len = - (m_chars a ! i - m_chars b ! i)
     \<and> (m_chars a ! i = m_chars b ! i + 32 \<longrightarrow> sint (compare lower a b len) = - 32)
     \<and> (m_chars b ! i = m_chars a ! i + 32 \<longrightarrow> sint (compare lower a b len) = 32)"
proof -
  have "compare_loop lower (m_chars a) (m_chars b) (min len (min (size_text a) (size_text b))) 0
      = Return (- (m_chars a ! i - m_chars b ! i))"
    using assms by (subst compare_loop_differ [where i = i]) auto
  then have r: "compare lower a b len = - (m_chars a ! i - m_chars b ! i)"
    by (simp add: compare_def Let_def)
  show ?thesis unfolding r by simp
qed

text \<open>
  The theorem at "Apple" against "apple" and back, five code points compared:
  \<open>compare("Apple", "apple", 5) = 32\<close> and \<open>compare("apple", "Apple", 5) = -32\<close>.
\<close>

theorem compare_case_only_witness:
  "sint (compare unc_tolower
      \<lparr>m_chars = [65, 112, 112, 108, 101], m_logtext = [], m_logok = False\<rparr>
      \<lparr>m_chars = [97, 112, 112, 108, 101], m_logtext = [], m_logok = False\<rparr> 5) = 32
   \<and> sint (compare unc_tolower
      \<lparr>m_chars = [97, 112, 112, 108, 101], m_logtext = [], m_logok = False\<rparr>
      \<lparr>m_chars = [65, 112, 112, 108, 101], m_logtext = [], m_logok = False\<rparr> 5) = - 32"
  using compare_case_only [of 0 5
      "\<lparr>m_chars = [65, 112, 112, 108, 101], m_logtext = [], m_logok = False\<rparr>"
      "\<lparr>m_chars = [97, 112, 112, 108, 101], m_logtext = [], m_logok = False\<rparr>" unc_tolower]
    compare_case_only [of 0 5
      "\<lparr>m_chars = [97, 112, 112, 108, 101], m_logtext = [], m_logok = False\<rparr>"
      "\<lparr>m_chars = [65, 112, 112, 108, 101], m_logtext = [], m_logok = False\<rparr>" unc_tolower]
  by (simp add: size_text_def unc_tolower_def)

text \<open>
  Claim C3 as it is written says that \<open>compare("Apple", "apple", 5)\<close> is strictly
  negative. It is not: the code returns 32.
\<close>

theorem compare_Apple_apple_counterexample:
  "\<not> sint (compare unc_tolower
      \<lparr>m_chars = [65, 112, 112, 108, 101], m_logtext = [], m_logok = False\<rparr>
      \<lparr>m_chars = [97, 112, 112, 108, 101], m_logtext = [], m_logok = False\<rparr> 5) < 0"
  by (simp add: compare_def size_text_def compare_loop.simps unc_tolower_def Let_def)

text \<open>
  Claim C8, as amended. Two buffers that agree on their common prefix, compared over more
  than that prefix, and each of fewer than \<open>2 ^ 31\<close> code points: \<open>compare\<close>
  returns the signed difference of the sizes, so a negative value when the first is
  shorter, a positive one when it is longer, and 0 when the sizes are equal. No unsigned
  subtraction goes below zero on the way.
\<close>

theorem compare_length_tiebreak:
  assumes "size_text a < 2 ^ 31" and "size_text b < 2 ^ 31"
    and "\<forall>i < min (size_text a) (size_text b). m_chars a ! i = m_chars b ! i"
    and "min (size_text a) (size_text b) < len"
  shows "sint (compare lower a b len) = int (size_text a) - int (size_text b)
     \<and> (size_text a < size_text b \<longrightarrow> sint (compare lower a b len) < 0)
     \<and> (size_text b < size_text a \<longrightarrow> 0 < sint (compare lower a b len))
     \<and> (size_text a = size_text b \<longrightarrow> compare lower a b len = 0)"
proof -
  define m where "m = min (size_text a) (size_text b)"
  define d1 where "d1 = size_text a - size_text b"
  define d2 where "d2 = size_text b - size_text a"
  have m: "min len m = m" "m \<noteq> len" using assms(4) by (simp_all add: m_def)
  have "compare_loop lower (m_chars a) (m_chars b) m 0 = Exit m"
    using assms(3) by (intro compare_loop_agree) (auto simp: m_def)
  then have c: "compare lower a b len =
      (if size_text b < size_text a then of_nat d1 else - of_nat d2)"
    by (simp add: compare_def Let_def m m_def [symmetric] d1_def d2_def)
  have d: "d1 < 2 ^ 31" "d2 < 2 ^ 31"
    using assms(1,2) by (simp_all add: d1_def d2_def)
  have s: "sint (compare lower a b len) = int (size_text a) - int (size_text b)"
  proof (cases "size_text b < size_text a")
    case True
    then show ?thesis using d by (simp add: c sint_of_nat_small) (simp add: d1_def)
  next
    case False
    then show ?thesis using d by (simp add: c sint_neg_of_nat_small) (simp add: d2_def)
  qed
  have z: "size_text a = size_text b \<longrightarrow> compare lower a b len = 0"
    by (simp add: c d2_def)
  show ?thesis using s z by simp
qed

text \<open>The theorem at "ab" against "abc", "abc" against "ab" and "ab" against "ab".\<close>

theorem compare_length_tiebreak_witness:
  "sint (compare unc_tolower
      \<lparr>m_chars = [97, 98], m_logtext = [], m_logok = False\<rparr>
      \<lparr>m_chars = [97, 98, 99], m_logtext = [], m_logok = False\<rparr> 3) = - 1
   \<and> sint (compare unc_tolower
      \<lparr>m_chars = [97, 98, 99], m_logtext = [], m_logok = False\<rparr>
      \<lparr>m_chars = [97, 98], m_logtext = [], m_logok = False\<rparr> 3) = 1
   \<and> compare unc_tolower
      \<lparr>m_chars = [97, 98], m_logtext = [], m_logok = False\<rparr>
      \<lparr>m_chars = [97, 98], m_logtext = [], m_logok = False\<rparr> 3 = 0"
  using compare_length_tiebreak [of
      "\<lparr>m_chars = [97, 98], m_logtext = [], m_logok = False\<rparr>"
      "\<lparr>m_chars = [97, 98, 99], m_logtext = [], m_logok = False\<rparr>" 3 unc_tolower]
    compare_length_tiebreak [of
      "\<lparr>m_chars = [97, 98, 99], m_logtext = [], m_logok = False\<rparr>"
      "\<lparr>m_chars = [97, 98], m_logtext = [], m_logok = False\<rparr>" 3 unc_tolower]
    compare_length_tiebreak [of
      "\<lparr>m_chars = [97, 98], m_logtext = [], m_logok = False\<rparr>"
      "\<lparr>m_chars = [97, 98], m_logtext = [], m_logok = False\<rparr>" 3 unc_tolower]
  by (simp add: size_text_def nth_Cons')

lemma size_text_replicate:
  "size_text \<lparr>m_chars = replicate n x @ ys, m_logtext = l, m_logok = b\<rparr> = n + length ys"
  by (simp add: size_text_def)

lemma compare_against_empty:
  assumes "0 < n"
  shows "compare lower \<lparr>m_chars = replicate n x, m_logtext = l, m_logok = b\<rparr>
           \<lparr>m_chars = [], m_logtext = l', m_logok = b'\<rparr> 1 = of_nat n"
proof -
  have "compare_loop lower (replicate n x) [] 0 0 = Exit 0"
    by (subst compare_loop.simps) simp
  then show ?thesis using assms by (simp add: compare_def size_text_def Let_def)
qed

text \<open>
  Claim C8 as it is written speaks of all buffers. The last \<^verbatim>\<open>return\<close> cuts the
  \<^verbatim>\<open>size_t\<close> difference of the sizes to an \<^verbatim>\<open>int\<close>: a buffer of \<open>2 ^ 31\<close> zeros against
  the empty buffer, compared over one code point, is the longer one and compares negative.
\<close>

theorem compare_length_tiebreak_counterexample:
  "size_text \<lparr>m_chars = [], m_logtext = [], m_logok = False\<rparr>
     < size_text \<lparr>m_chars = replicate (2 ^ 31) 0, m_logtext = [], m_logok = False\<rparr>
   \<and> min (size_text \<lparr>m_chars = replicate (2 ^ 31) 0, m_logtext = [], m_logok = False\<rparr>)
          (size_text \<lparr>m_chars = [], m_logtext = [], m_logok = False\<rparr>) < 1
   \<and> sint (compare unc_tolower \<lparr>m_chars = replicate (2 ^ 31) 0, m_logtext = [], m_logok = False\<rparr>
          \<lparr>m_chars = [], m_logtext = [], m_logok = False\<rparr> 1) < 0"
proof -
  have a: "size_text \<lparr>m_chars = replicate (2 ^ 31) 0, m_logtext = [], m_logok = False\<rparr> = 2 ^ 31"
    using size_text_replicate [of "2 ^ 31" 0 "[]" "[]" False] by (simp only: append_Nil2 list.size add_0_right)
  have b: "size_text \<lparr>m_chars = [], m_logtext = [], m_logok = False\<rparr> = 0"
    by (simp add: size_text_def)
  have c: "compare unc_tolower \<lparr>m_chars = replicate (2 ^ 31) 0, m_logtext = [], m_logok = False\<rparr>
          \<lparr>m_chars = [], m_logtext = [], m_logok = False\<rparr> 1 = of_nat (2 ^ 31)"
    by (rule compare_against_empty) simp
  have d: "sint (of_nat (2 ^ 31) :: cint) < 0" by simp
  show ?thesis unfolding a b c using d by simp
qed

subsection \<open>The validity flag of the display cache\<close>

text \<open>Every mutator but \<open>erase\<close> leaves the flag false.\<close>

lemma mutators_invalidate:
  "\<not> m_logok (set_ch t ch)"
  "\<not> m_logok (set_text t ref)"
  "set_range t ref idx len = Inr t' \<Longrightarrow> \<not> m_logok t'"
  "set_string t ascii_text = Inr t' \<Longrightarrow> \<not> m_logok t'"
  "set_cstr t ascii_text = Inr t' \<Longrightarrow> \<not> m_logok t'"
  "set_data t data idx len = Inr t' \<Longrightarrow> \<not> m_logok t'"
  "size_text t \<noteq> new_size \<Longrightarrow> \<not> m_logok (resize t new_size)"
  "\<not> m_logok (clear t)"
  "insert_ch t idx ch = Inr t' \<Longrightarrow> \<not> m_logok t'"
  "insert_text t idx ref = Inr t' \<Longrightarrow> \<not> m_logok t'"
  "\<not> m_logok (append_ch t ch)"
  "\<not> m_logok (append_text t ref)"
  "append_string t ascii_text = Inr t' \<Longrightarrow> \<not> m_logok t'"
  "append_cstr t ascii_text = Inr t' \<Longrightarrow> \<not> m_logok t'"
  "append_data t data idx len = Inr t' \<Longrightarrow> \<not> m_logok t'"
  by (auto simp: set_ch_def set_text_def set_range_def set_string_def set_cstr_def set_data_def
      resize_def clear_def insert_ch_def insert_text_def append_ch_def append_text_def
      append_string_def append_cstr_def append_data_def Let_def
      split: sum.splits if_splits)

lemma erase_keeps_logok: "erase t idx len = Inr t' \<Longrightarrow> m_logok t' = m_logok t"
  by (auto simp: erase_def split: if_splits)

text \<open>
  Claim C1 says that every mutator, \<open>erase\<close> of a positive length among them, leaves the
  validity flag false. \<open>erase\<close> does not touch the flag. On the buffer "ab" with a valid
  cache, erasing one code point at index 0 gives "b" with the cache of "ab" still marked
  valid, and \<open>update_logtext\<close> then returns that cache as it is, whatever the encoder.
\<close>

theorem erase_leaves_cache_valid:
  "erase \<lparr>m_chars = [97, 98], m_logtext = [97, 98, 0], m_logok = True\<rparr> 0 1
     = Inr \<lparr>m_chars = [98], m_logtext = [97, 98, 0], m_logok = True\<rparr>
   \<and> update_logtext encode_utf8 \<lparr>m_chars = [98], m_logtext = [97, 98, 0], m_logok = True\<rparr>
     = \<lparr>m_chars = [98], m_logtext = [97, 98, 0], m_logok = True\<rparr>"
  by (simp add: erase_def update_logtext_def)

subsection \<open>Rebuilding the display cache\<close>

lemma logtext_loop_append:
  assumes "\<And>ch buf. encode_utf8 ch buf = buf @ enc ch"
  shows "logtext_loop encode_utf8 cs buf =
     buf @ concat (map (\<lambda>c. enc (if c = 10 then 0x2424 else if c = 13 then 0x240d else c)) cs)"
  by (induction cs arbitrary: buf) (simp_all add: assms)

text \<open>
  Claim C6. The encoder appends the bytes \<open>enc ch\<close> of a code point to the vector it is
  given. Then \<open>update_logtext\<close> on a buffer whose cache is not valid leaves as the cache
  the bytes of the code points in order, with U+2424 for a newline and U+240D for a
  carriage return, and one zero byte after them, and marks it valid; on a buffer whose
  cache is valid it changes nothing.
\<close>

theorem update_logtext_rebuild:
  assumes "\<And>ch buf. encode_utf8 ch buf = buf @ enc ch"
  shows "update_logtext encode_utf8 t =
     (if m_logok t then t
      else t\<lparr>m_logtext :=
               concat (map (\<lambda>c. enc (if c = 10 then 0x2424 else if c = 13 then 0x240d else c))
                         (m_chars t)) @ [0],
             m_logok := True\<rparr>)"
proof (cases "m_logok t")
  case True
  then show ?thesis by (simp add: update_logtext_def)
next
  case False
  have "logtext_loop encode_utf8 (m_chars t) [] =
      concat (map (\<lambda>c. enc (if c = 10 then 0x2424 else if c = 13 then 0x240d else c)) (m_chars t))"
    using logtext_loop_append [of encode_utf8 enc "m_chars t" "[]"] assms by simp
  then show ?thesis using False by (simp add: update_logtext_def)
qed

text \<open>
  The theorem with an encoder that writes the two low bytes of a code point, on the
  buffer "a", newline, carriage return: once with a stale cache and once with a valid one.
\<close>

theorem update_logtext_rebuild_witness:
  "update_logtext (\<lambda>ch buf. buf @ [ucast (drop_bit 8 ch), ucast ch])
       \<lparr>m_chars = [97, 10, 13], m_logtext = [1, 2], m_logok = False\<rparr>
     = \<lparr>m_chars = [97, 10, 13], m_logtext = [0, 97, 0x24, 0x24, 0x24, 0x0d, 0], m_logok = True\<rparr>
   \<and> update_logtext (\<lambda>ch buf. buf @ [ucast (drop_bit 8 ch), ucast ch])
       \<lparr>m_chars = [97, 10, 13], m_logtext = [1, 2], m_logok = True\<rparr>
     = \<lparr>m_chars = [97, 10, 13], m_logtext = [1, 2], m_logok = True\<rparr>"
  using update_logtext_rebuild [of "\<lambda>ch buf. buf @ [ucast (drop_bit 8 ch), ucast ch]"
      "\<lambda>ch. [ucast (drop_bit 8 ch), ucast ch]"
      "\<lparr>m_chars = [97, 10, 13], m_logtext = [1, 2], m_logok = False\<rparr>"]
    update_logtext_rebuild [of "\<lambda>ch buf. buf @ [ucast (drop_bit 8 ch), ucast ch]"
      "\<lambda>ch. [ucast (drop_bit 8 ch), ucast ch]"
      "\<lparr>m_chars = [97, 10, 13], m_logtext = [1, 2], m_logok = True\<rparr>"]
  by simp

subsection \<open>set\<close>

lemma copy_loop_zero: "copy_loop dst src di idx 0 = Inr dst"
  by (simp add: copy_loop.simps)

lemma copy_loop_in_range:
  assumes "di + len \<le> length dst" "idx + len \<le> length src"
  shows "\<exists>cs. copy_loop dst src di idx len = Inr cs \<and> length cs = length dst"
  using assms
proof (induction len arbitrary: dst di idx)
  case 0
  then show ?case by (simp add: copy_loop_zero)
next
  case (Suc len)
  have "\<exists>cs. copy_loop (dst[di := src ! idx]) src (di + 1) (idx + 1) len = Inr cs
      \<and> length cs = length (dst[di := src ! idx])"
    using Suc.prems by (intro Suc.IH) simp_all
  then show ?case
    using Suc.prems by (subst copy_loop.simps) (simp del: fix_len_idx.simps)
qed

lemma fill_loop_in_range:
  assumes "len \<le> length dst" "len \<le> length ascii_text" "idx \<le> len"
  shows "\<exists>cs. fill_loop dst ascii_text idx len = Inr cs \<and> length cs = length dst"
  using assms
proof (induction "len - idx" arbitrary: dst idx)
  case 0
  then show ?case by (simp add: fill_loop.simps [of _ _ idx])
next
  case (Suc n)
  have "\<exists>cs. fill_loop (dst[idx := char_to_int (ascii_text ! idx)]) ascii_text (idx + 1) len = Inr cs
      \<and> length cs = length (dst[idx := char_to_int (ascii_text ! idx)])"
    using Suc.prems Suc.hyps(2) by (intro Suc.hyps(1)) simp_all
  then show ?case
    using Suc.prems Suc.hyps(2) by (subst fill_loop.simps) simp
qed

lemma length_vector_resize: "length (vector_resize cs n) = n"
  by (simp add: vector_resize_def)

lemma fix_len_idx_le: "fix_len_idx sz idx len \<le> len"
  by (simp add: Let_def)

lemma fix_len_idx_fits: "fix_len_idx sz idx len \<noteq> 0 \<Longrightarrow> idx + fix_len_idx sz idx len \<le> sz"
  by (auto simp: Let_def split: if_splits)

text \<open>
  No \<^verbatim>\<open>set\<close> overload reads or writes outside a sequence: \<open>fix_len_idx\<close> and the
  \<^verbatim>\<open>resize\<close> before the loop keep both indices of the copying loop in range.
\<close>

lemma set_overloads_in_range:
  "\<exists>t'. set_range t ref idx len = Inr t'"
  "\<exists>t'. set_data t data idx len = Inr t'"
  "\<exists>t'. set_string t ascii_text = Inr t'"
  "\<exists>t'. set_cstr t ascii_text = Inr t'"
proof -
  have c: "\<exists>cs. copy_loop (vector_resize old len) src 0 idx (fix_len_idx (length src) idx len) = Inr cs
      \<and> length cs = length (vector_resize old len)" for old src
  proof (cases "fix_len_idx (length src) idx len = 0")
    case True
    show ?thesis unfolding True by (simp only: copy_loop_zero) simp
  next
    case False
    then have "idx + fix_len_idx (length src) idx len \<le> length src"
      by (rule fix_len_idx_fits)
    moreover have "0 + fix_len_idx (length src) idx len \<le> length (vector_resize old len)"
      using fix_len_idx_le [of "length src" idx len] by (simp only: length_vector_resize add_0)
    ultimately show ?thesis
      by (intro copy_loop_in_range)
  qed
  show "\<exists>t'. set_range t ref idx len = Inr t'"
    using c [of "m_chars t" "m_chars ref"] by (auto simp: set_range_def Let_def size_text_def)
  show "\<exists>t'. set_data t data idx len = Inr t'"
    using c [of "m_chars t" data] by (auto simp: set_data_def)
  have f: "\<exists>cs. fill_loop (vector_resize (m_chars t) (length ascii_text)) ascii_text 0 (length ascii_text) = Inr cs
      \<and> length cs = length (vector_resize (m_chars t) (length ascii_text))"
    by (intro fill_loop_in_range) (simp_all add: length_vector_resize)
  show "\<exists>t'. set_string t ascii_text = Inr t'"
    using f by (auto simp: set_string_def Let_def)
  show "\<exists>t'. set_cstr t ascii_text = Inr t'"
    using f by (auto simp: set_cstr_def Let_def)
qed

text \<open>
  Claim C4, as amended. \<open>set(other, start, length)\<close> with \<open>start\<close> at or past the size of
  \<open>other\<close> is no error and leaves the cache invalid. When \<open>length\<close> is the size of \<open>other\<close>
  the buffer becomes a copy of \<open>other\<close>. Otherwise it has exactly \<open>length\<close> elements: the
  elements the target had before, as far as \<open>length\<close> reaches, and zeros after them; so
  all of them are zero when the target was empty.
\<close>

theorem set_range_start_past_end:
  assumes "size_text ref \<le> idx"
  shows "set_range t ref idx len =
     Inr (t\<lparr>m_chars := (if len = size_text ref then m_chars ref
                         else take len (m_chars t) @ replicate (len - size_text t) 0),
            m_logok := False\<rparr>)"
  using assms by (simp add: set_range_def Let_def vector_resize_def copy_loop_zero size_text_def)

text \<open>The theorem on an empty target and on the target "x", with "abc" as the source.\<close>

theorem set_range_start_past_end_witness:
  "set_range \<lparr>m_chars = [], m_logtext = [], m_logok = True\<rparr>
       \<lparr>m_chars = [97, 98, 99], m_logtext = [], m_logok = False\<rparr> 3 2
     = Inr \<lparr>m_chars = [0, 0], m_logtext = [], m_logok = False\<rparr>
   \<and> set_range \<lparr>m_chars = [120], m_logtext = [], m_logok = True\<rparr>
       \<lparr>m_chars = [97, 98, 99], m_logtext = [], m_logok = False\<rparr> 7 2
     = Inr \<lparr>m_chars = [120, 0], m_logtext = [], m_logok = False\<rparr>"
  using set_range_start_past_end [of "\<lparr>m_chars = [97, 98, 99], m_logtext = [], m_logok = False\<rparr>" 3
      "\<lparr>m_chars = [], m_logtext = [], m_logok = True\<rparr>" 2]
    set_range_start_past_end [of "\<lparr>m_chars = [97, 98, 99], m_logtext = [], m_logok = False\<rparr>" 7
      "\<lparr>m_chars = [120], m_logtext = [], m_logok = True\<rparr>" 2]
  by (simp add: size_text_def numeral_2_eq_2)

text \<open>
  Claim C4 as it is written promises \<open>length\<close> zeros whatever the target held. The target
  "xyz" set from "abc" at start 5 with length 2 becomes "xy"; and the empty target set
  from "ab" at start 2 with length 2, the size of the source, becomes "ab".
\<close>

theorem set_range_zero_filled_counterexample:
  "set_range \<lparr>m_chars = [120, 121, 122], m_logtext = [], m_logok = False\<rparr>
       \<lparr>m_chars = [97, 98, 99], m_logtext = [], m_logok = False\<rparr> 5 2
     = Inr \<lparr>m_chars = [120, 121], m_logtext = [], m_logok = False\<rparr>
   \<and> set_range \<lparr>m_chars = [], m_logtext = [], m_logok = False\<rparr>
       \<lparr>m_chars = [97, 98], m_logtext = [], m_logok = False\<rparr> 2 2
     = Inr \<lparr>m_chars = [97, 98], m_logtext = [], m_logok = False\<rparr>"
  by (simp add: set_range_def Let_def vector_resize_def copy_loop_zero size_text_def)

subsection \<open>insert and erase\<close>

text \<open>
  Claim C9. For an index within the buffer or at its end, inserting a buffer \<open>p\<close> there
  and then erasing as many elements as \<open>p\<close> has from the same index both succeed and give
  back the code points the buffer had.
\<close>

theorem insert_erase_roundtrip:
  assumes "idx \<le> size_text s"
  shows "\<exists>s1 s2. insert_text s idx p = Inr s1 \<and> erase s1 idx (size_text p) = Inr s2
           \<and> m_chars s2 = m_chars s"
  using assms by (simp add: insert_text_def erase_def size_text_def)

text \<open>The theorem on "ab" with "xy" inserted at index 1.\<close>

theorem insert_erase_roundtrip_witness:
  "(1::nat) \<le> size_text \<lparr>m_chars = [97, 98], m_logtext = [], m_logok = False\<rparr>
   \<and> (\<exists>s1 s2.
        insert_text \<lparr>m_chars = [97, 98], m_logtext = [], m_logok = False\<rparr> 1
            \<lparr>m_chars = [120, 121], m_logtext = [], m_logok = False\<rparr> = Inr s1
        \<and> erase s1 1 (size_text \<lparr>m_chars = [120, 121], m_logtext = [], m_logok = False\<rparr>) = Inr s2
        \<and> m_chars s2 = [97, 98])"
  using insert_erase_roundtrip [of 1 "\<lparr>m_chars = [97, 98], m_logtext = [], m_logok = False\<rparr>"
      "\<lparr>m_chars = [120, 121], m_logtext = [], m_logok = False\<rparr>"]
  by (simp add: size_text_def)

subsection \<open>find\<close>

lemma occurs_at_iff:
  "occurs_at cs text i \<longleftrightarrow>
     i + length text \<le> length cs \<and> (\<forall>k<length text. cs ! (i + k) = char_to_int (text ! k))"
  by (auto simp: occurs_at_def list_eq_iff_nth_eq)

lemma occurs_at_bound: "occurs_at cs text i \<Longrightarrow> i + length text \<le> length cs"
  by (simp add: occurs_at_def)

lemma match_loop_in_range:
  assumes "idx + length text \<le> length cs" "length cs < 2 ^ 64" "ii \<le> length text"
  shows "match_loop cs text idx ii =
     Inr (\<forall>k. ii \<le> k \<and> k < length text \<longrightarrow> cs ! (idx + k) = char_to_int (text ! k))"
  using assms
proof (induction "length text - ii" arbitrary: ii)
  case 0
  then show ?case by (auto simp: match_loop.simps [of _ _ _ ii])
next
  case (Suc n)
  then have lt: "ii < length text" by simp
  have p: "size_t_add idx ii = idx + ii" "idx + ii < length cs"
    using lt Suc.prems by (simp_all add: size_t_add_def SIZE_MOD_def)
  show ?case
  proof (cases "cs ! (idx + ii) = char_to_int (text ! ii)")
    case False
    then show ?thesis using lt p
      by (subst match_loop.simps) (auto simp: Let_def)
  next
    case True
    have "match_loop cs text idx ii = match_loop cs text idx (ii + 1)"
      using lt p True by (subst match_loop.simps) (simp add: Let_def)
    also have "\<dots> = Inr (\<forall>k. ii + 1 \<le> k \<and> k < length text \<longrightarrow> cs ! (idx + k) = char_to_int (text ! k))"
      using Suc.hyps(2) lt Suc.prems by (intro Suc.hyps(1)) auto
    also have "(\<forall>k. ii + 1 \<le> k \<and> k < length text \<longrightarrow> cs ! (idx + k) = char_to_int (text ! k))
        = (\<forall>k. ii \<le> k \<and> k < length text \<longrightarrow> cs ! (idx + k) = char_to_int (text ! k))"
      using True by (metis Suc_eq_plus1 Suc_leI le_neq_implies_less Suc_leD)
    finally show ?thesis .
  qed
qed

lemma match_loop_occurs:
  assumes "idx + length text \<le> length cs" "length cs < 2 ^ 64"
  shows "match_loop cs text idx 0 = Inr (occurs_at cs text idx)"
  using assms by (simp add: match_loop_in_range occurs_at_iff)

lemma find_loop_none:
  assumes "midx + length text \<le> length cs" "length cs < 2 ^ 64"
    and "\<forall>j. idx \<le> j \<and> j \<le> midx \<longrightarrow> \<not> occurs_at cs text j"
  shows "find_loop cs text midx idx = Inr (- 1)"
  using assms
proof (induction "Suc midx - idx" arbitrary: idx)
  case 0
  then show ?case by (simp add: find_loop.simps [of _ _ _ idx])
next
  case (Suc n)
  then have le: "idx \<le> midx" by simp
  then have m: "match_loop cs text idx 0 = Inr False"
    using Suc.prems by (subst match_loop_occurs) auto
  have "find_loop cs text midx idx = find_loop cs text midx (idx + 1)"
    using le m by (subst find_loop.simps) simp
  also have "\<dots> = Inr (- 1)"
    using Suc.hyps(2) Suc.prems by (intro Suc.hyps(1)) auto
  finally show ?case .
qed

lemma find_loop_found:
  assumes "midx + length text \<le> length cs" "length cs < 2 ^ 64"
    and "idx \<le> i" "i \<le> midx" "occurs_at cs text i"
    and "\<forall>j. idx \<le> j \<and> j < i \<longrightarrow> \<not> occurs_at cs text j"
  shows "find_loop cs text midx idx = Inr (of_nat i)"
  using assms
proof (induction "i - idx" arbitrary: idx)
  case 0
  then have "idx = i" by simp
  moreover have "match_loop cs text i 0 = Inr True"
    using 0 by (subst match_loop_occurs) auto
  ultimately show ?case using 0 by (subst find_loop.simps) simp
next
  case (Suc n)
  then have lt: "idx < i" by simp
  then have m: "match_loop cs text idx 0 = Inr False"
    using Suc.prems by (subst match_loop_occurs) auto
  have "find_loop cs text midx idx = find_loop cs text midx (idx + 1)"
    using lt Suc.prems m by (subst find_loop.simps) simp
  also have "\<dots> = Inr (of_nat i)"
    using Suc.hyps(2) Suc.prems lt by (intro Suc.hyps(1)) auto
  finally show ?case .
qed

lemma find_text_first:
  assumes "size_text t < 2 ^ 64"
    and "sidx \<le> i" "occurs_at (m_chars t) text i"
    and "\<forall>j. sidx \<le> j \<and> j < i \<longrightarrow> \<not> occurs_at (m_chars t) text j"
  shows "find_text t text sidx = Inr (of_nat i)"
proof -
  have b: "i + length text \<le> length (m_chars t)" using assms(3) by (rule occurs_at_bound)
  then have "find_loop (m_chars t) text (length (m_chars t) - length text) sidx = Inr (of_nat i)"
    using assms by (intro find_loop_found) (auto simp: size_text_def)
  then show ?thesis using b by (simp add: find_text_def Let_def size_text_def)
qed

lemma find_text_none:
  assumes "size_text t < 2 ^ 64"
    and "\<forall>j. sidx \<le> j \<longrightarrow> \<not> occurs_at (m_chars t) text j"
  shows "find_text t text sidx = Inr (- 1)"
proof (cases "size_text t < length text")
  case True
  then show ?thesis by (simp add: find_text_def Let_def)
next
  case False
  then have "find_loop (m_chars t) text (length (m_chars t) - length text) sidx = Inr (- 1)"
    using assms by (intro find_loop_none) (auto simp: size_text_def)
  then show ?thesis using False by (simp add: find_text_def Let_def size_text_def)
qed

text \<open>
  Claim C7, as amended. On a buffer of fewer than \<open>2 ^ 31\<close> code points \<open>find\<close> never
  reads outside the buffer. When the pattern occurs at some index from \<open>sidx\<close> on, the
  result is the least such index (index 0 included when \<open>sidx\<close> is 0); otherwise, and so
  whenever the pattern is longer than the buffer, the result is \<open>-1\<close>.
\<close>

theorem find_text_leftmost:
  assumes "size_text t < 2 ^ 31"
  shows "(\<exists>r. find_text t text sidx = Inr r \<and>
     (if \<exists>i. sidx \<le> i \<and> occurs_at (m_chars t) text i
      then \<exists>i. sint r = int i \<and> sidx \<le> i \<and> occurs_at (m_chars t) text i
             \<and> (\<forall>j. sidx \<le> j \<and> j < i \<longrightarrow> \<not> occurs_at (m_chars t) text j)
      else r = - 1))
     \<and> (size_text t < length text \<longrightarrow> find_text t text sidx = Inr (- 1))"
proof -
  have sz: "size_text t < 2 ^ 64" using assms by simp
  have long: "size_text t < length text \<longrightarrow> find_text t text sidx = Inr (- 1)"
    by (simp add: find_text_def Let_def)
  have "\<exists>r. find_text t text sidx = Inr r \<and>
     (if \<exists>i. sidx \<le> i \<and> occurs_at (m_chars t) text i
      then \<exists>i. sint r = int i \<and> sidx \<le> i \<and> occurs_at (m_chars t) text i
             \<and> (\<forall>j. sidx \<le> j \<and> j < i \<longrightarrow> \<not> occurs_at (m_chars t) text j)
      else r = - 1)"
  proof (cases "\<exists>i. sidx \<le> i \<and> occurs_at (m_chars t) text i")
    case True
    define P where "P = (\<lambda>i. sidx \<le> i \<and> occurs_at (m_chars t) text i)"
    define i where "i = (LEAST i. P i)"
    have ex: "\<exists>i. P i" using True by (simp add: P_def)
    then have Pi: "P i" unfolding i_def by (metis LeastI)
    have least: "\<forall>j. j < i \<longrightarrow> \<not> P j" unfolding i_def using not_less_Least by blast
    have first: "\<forall>j. sidx \<le> j \<and> j < i \<longrightarrow> \<not> occurs_at (m_chars t) text j"
      using least by (auto simp: P_def)
    have f: "find_text t text sidx = Inr (of_nat i)"
      using sz Pi first by (intro find_text_first) (auto simp: P_def)
    have "i < 2 ^ 31"
      using Pi occurs_at_bound [of "m_chars t" "text" i] assms by (simp add: P_def size_text_def)
    then have "sint (of_nat i :: cint) = int i" by (rule sint_of_nat_small)
    then show ?thesis using True f Pi first by (auto simp: P_def)
  next
    case False
    then have "find_text t text sidx = Inr (- 1)"
      using sz by (intro find_text_none) auto
    then show ?thesis using False by simp
  qed
  then show ?thesis using long by (rule conjI)
qed

text \<open>
  The theorem on "banana": "na" from index 3 is found at 4, "ba" from index 0 at 0, and
  "ba" from index 1 is not found.
\<close>

theorem find_text_leftmost_witness:
  "size_text \<lparr>m_chars = [98, 97, 110, 97, 110, 97], m_logtext = [], m_logok = False\<rparr> < 2 ^ 31
   \<and> find_text \<lparr>m_chars = [98, 97, 110, 97, 110, 97], m_logtext = [], m_logok = False\<rparr>
        [110, 97] 3 = Inr 4
   \<and> find_text \<lparr>m_chars = [98, 97, 110, 97, 110, 97], m_logtext = [], m_logok = False\<rparr>
        [98, 97] 0 = Inr 0
   \<and> find_text \<lparr>m_chars = [98, 97, 110, 97, 110, 97], m_logtext = [], m_logok = False\<rparr>
        [98, 97] 1 = Inr (- 1)"
  using find_text_leftmost [of "\<lparr>m_chars = [98, 97, 110, 97, 110, 97], m_logtext = [], m_logok = False\<rparr>"
      "[110, 97]" 3]
  by (simp add: find_text_def size_text_def find_loop.simps match_loop.simps size_t_add_def
      SIZE_MOD_def char_to_int_def Let_def)

lemma occurs_at_after_zeros:
  "occurs_at (replicate n 0 @ [1]) [1] j \<longleftrightarrow> j = n"
  by (auto simp: occurs_at_iff nth_append char_to_int_def)

lemma find_text_after_zeros:
  assumes "n + 1 < 2 ^ 64"
  shows "find_text \<lparr>m_chars = replicate n 0 @ [1], m_logtext = l, m_logok = b\<rparr> [1] 0 = Inr (of_nat n)"
  using assms by (intro find_text_first) (simp_all add: occurs_at_after_zeros size_text_def)

text \<open>
  Claim C7 as it is written speaks of every buffer. \<open>find\<close> returns the \<^verbatim>\<open>size_t\<close> index
  cut to an \<^verbatim>\<open>int\<close>: in the buffer of \<open>2 ^ 31\<close> zeros and a 1 after them the pattern "1"
  stands at index \<open>2 ^ 31\<close> and nowhere before, and \<open>find\<close> from 0 returns \<open>- 2 ^ 31\<close>,
  which is neither that index nor \<open>-1\<close>.
\<close>

theorem find_text_leftmost_counterexample:
  "occurs_at (replicate (2 ^ 31) 0 @ [1]) [1] (2 ^ 31)
   \<and> find_text \<lparr>m_chars = replicate (2 ^ 31) 0 @ [1], m_logtext = [], m_logok = False\<rparr> [1] 0
       = Inr (of_nat (2 ^ 31))
   \<and> sint (of_nat (2 ^ 31) :: cint) = - (2 ^ 31)
   \<and> (of_nat (2 ^ 31) :: cint) \<noteq> - 1"
proof -
  have a: "occurs_at (replicate (2 ^ 31) 0 @ [1]) [1] (2 ^ 31)"
    by (simp only: occurs_at_after_zeros)
  have b: "find_text \<lparr>m_chars = replicate (2 ^ 31) 0 @ [1], m_logtext = [], m_logok = False\<rparr> [1] 0
       = Inr (of_nat (2 ^ 31))"
    by (rule find_text_after_zeros) simp
  have c: "sint (of_nat (2 ^ 31) :: cint) = - (2 ^ 31)" "(of_nat (2 ^ 31) :: cint) \<noteq> - 1"
    by simp_all
  show ?thesis using a b c by (intro conjI)
qed

subsection \<open>rfind\<close>

lemma rfind_loop_total:
  assumes "idx + length text \<le> length cs" "length cs < 2 ^ 64"
  shows "\<exists>r. rfind_loop cs text idx = Inr r"
  using assms
proof (induction idx)
  case 0
  then show ?case by (simp add: rfind_loop.simps [of _ _ 0])
next
  case (Suc idx)
  have m: "match_loop cs text (Suc idx) 0 = Inr (occurs_at cs text (Suc idx))"
    using Suc.prems by (rule match_loop_occurs)
  obtain r where r: "rfind_loop cs text idx = Inr r"
    using Suc by auto
  show ?case
    using m r by (subst rfind_loop.simps) simp
qed

lemma size_t_sub_no_wrap:
  assumes "b \<le> a" "a < 2 ^ 64"
  shows "size_t_sub a b = a - b"
  using assms by (simp add: size_t_sub_def SIZE_MOD_def mod_if)

lemma size_t_sub_wrap:
  assumes "a < b" "b < 2 ^ 64"
  shows "size_t_sub a b = 2 ^ 64 - (b - a)"
proof -
  have "a + (18446744073709551616 - b) < 18446744073709551616" using assms by simp
  moreover have "a + (18446744073709551616 - b) = 18446744073709551616 - (b - a)"
    using assms by simp
  ultimately show ?thesis
    using assms by (simp add: size_t_sub_def SIZE_MOD_def)
qed

lemma match_loop_first_read_out:
  assumes "length cs \<le> idx" "idx < 2 ^ 64" "text \<noteq> []"
  shows "match_loop cs text idx 0 = Inl OutOfBounds"
  using assms by (subst match_loop.simps) (simp add: size_t_add_def SIZE_MOD_def Let_def)

lemma rfind_loop_none:
  assumes "idx + length text \<le> length cs" "length cs < 2 ^ 64"
    and "\<forall>j. 0 < j \<and> j \<le> idx \<longrightarrow> \<not> occurs_at cs text j"
  shows "rfind_loop cs text idx = Inr (- 1)"
  using assms
proof (induction idx)
  case 0
  then show ?case by (simp add: rfind_loop.simps [of _ _ 0])
next
  case (Suc idx)
  have "match_loop cs text (Suc idx) 0 = Inr False"
    using Suc.prems by (subst match_loop_occurs) auto
  moreover have "rfind_loop cs text idx = Inr (- 1)"
    using Suc.prems by (intro Suc.IH) auto
  ultimately show ?case by (subst rfind_loop.simps) simp
qed

lemma rfind_loop_found:
  assumes "idx + length text \<le> length cs" "length cs < 2 ^ 64"
    and "0 < i" "i \<le> idx" "occurs_at cs text i"
    and "\<forall>j. i < j \<and> j \<le> idx \<longrightarrow> \<not> occurs_at cs text j"
  shows "rfind_loop cs text idx = Inr (of_nat i)"
  using assms
proof (induction idx)
  case 0
  then show ?case by simp
next
  case (Suc idx)
  show ?case
  proof (cases "i = Suc idx")
    case True
    have "match_loop cs text (Suc idx) 0 = Inr True"
      using Suc.prems True by (subst match_loop_occurs) auto
    then show ?thesis using True by (subst rfind_loop.simps) simp
  next
    case False
    then have le: "i \<le> idx" using Suc.prems by simp
    have "match_loop cs text (Suc idx) 0 = Inr False"
      using Suc.prems False by (subst match_loop_occurs) auto
    moreover have "rfind_loop cs text idx = Inr (of_nat i)"
      using Suc.prems le by (intro Suc.IH) auto
    ultimately show ?thesis by (subst rfind_loop.simps) simp
  qed
qed

text \<open>
  What the downward scan does find: with the pattern no longer than the buffer, the
  rightmost occurrence among the indices from 1 to the smaller of the start index and
  \<open>size - len\<close>. Index 0 is not among them.
\<close>

lemma rfind_rightmost_above_0:
  assumes "length text \<le> size_text t" "size_text t < 2 ^ 31"
  shows "\<exists>r. rfind t text sidx = Inr r \<and>
     (if \<exists>i. 0 < i \<and> i \<le> min sidx (size_text t - length text) \<and> occurs_at (m_chars t) text i
      then \<exists>i. sint r = int i \<and> 0 < i \<and> i \<le> min sidx (size_text t - length text)
             \<and> occurs_at (m_chars t) text i
             \<and> (\<forall>j. i < j \<and> j \<le> min sidx (size_text t - length text)
                    \<longrightarrow> \<not> occurs_at (m_chars t) text j)
      else r = - 1)"
proof -
  define s where "s = min sidx (size_text t - length text)"
  have sz: "length (m_chars t) < 2 ^ 64" using assms(2) by (simp add: size_text_def)
  have rf: "rfind t text sidx = rfind_loop (m_chars t) text s"
    using assms by (auto simp: rfind_def Let_def size_t_sub_no_wrap s_def min_def)
  have sb: "s + length text \<le> length (m_chars t)"
    using assms(1) by (simp add: s_def size_text_def)
  show ?thesis
  proof (cases "\<exists>i. 0 < i \<and> i \<le> s \<and> occurs_at (m_chars t) text i")
    case False
    then have "rfind_loop (m_chars t) text s = Inr (- 1)"
      using sb sz by (intro rfind_loop_none) auto
    then show ?thesis using False by (simp add: rf s_def [symmetric])
  next
    case True
    define P where "P = (\<lambda>i. 0 < i \<and> i \<le> s \<and> occurs_at (m_chars t) text i)"
    define i where "i = (GREATEST i. P i)"
    have ex: "\<exists>i. P i" using True by (simp add: P_def)
    have bd: "\<forall>y. P y \<longrightarrow> y \<le> s" by (simp add: P_def)
    have Pi: "P i" unfolding i_def using ex bd by (metis GreatestI_ex_nat)
    have gr: "\<forall>j. P j \<longrightarrow> j \<le> i" unfolding i_def using bd by (metis Greatest_le_nat)
    have last: "\<forall>j. i < j \<and> j \<le> s \<longrightarrow> \<not> occurs_at (m_chars t) text j"
    proof (intro allI impI notI)
      fix j
      assume j: "i < j \<and> j \<le> s" and o: "occurs_at (m_chars t) text j"
      then have "P j" by (simp add: P_def)
      then have "j \<le> i" using gr by blast
      then show False using j by simp
    qed
    have "rfind_loop (m_chars t) text s = Inr (of_nat i)"
      using sb sz Pi last by (intro rfind_loop_found) (auto simp: P_def)
    moreover have "i < 2 ^ 31" using Pi sb assms(2) by (simp add: P_def size_text_def)
    then have "sint (of_nat i :: cint) = int i" by (rule sint_of_nat_small)
    ultimately show ?thesis using True Pi last
      by (simp add: rf s_def [symmetric]) (auto simp: P_def)
  qed
qed

text \<open>
  Claim C2 says that \<open>rfind\<close> returns the rightmost occurrence at or below the start
  index, an occurrence at index 0 among them. The loop of \<open>rfind\<close> stops when the index
  is 0 and never looks there: in "ab" the pattern "a" stands at index 0, \<open>find\<close> from 0
  returns 0, and \<open>rfind\<close> from index 1 returns \<open>-1\<close>.
\<close>

theorem rfind_misses_index_0:
  "rfind \<lparr>m_chars = [97, 98], m_logtext = [], m_logok = False\<rparr> [97] 1 = Inr (- 1)
   \<and> occurs_at [97, 98] [97] 0
   \<and> find_text \<lparr>m_chars = [97, 98], m_logtext = [], m_logok = False\<rparr> [97] 0 = Inr 0"
  by (simp add: rfind_def find_text_def size_text_def size_t_sub_def size_t_add_def SIZE_MOD_def
      rfind_loop.simps find_loop.simps match_loop.simps char_to_int_def occurs_at_def)

text \<open>
  Claim C10. \<open>rfind\<close> has no early return for a pattern longer than the buffer, as
  \<open>find\<close> has. With the pattern no longer than the buffer it reads inside the buffer and
  returns a value, whatever the start index. With a longer pattern \<open>find\<close> returns \<open>-1\<close>,
  while in \<open>rfind\<close> the bound \<open>size() - len\<close> wraps to \<open>2 ^ 64 - (len - size())\<close>, and from
  every start index that is not 0 and not below the size the first read of the scan is
  past the end of the code points.
\<close>

theorem rfind_overlong_pattern:
  assumes "size_text t < 2 ^ 64" and "length text < 2 ^ 64"
  shows "(length text \<le> size_text t \<longrightarrow> (\<exists>r. rfind t text sidx = Inr r))
     \<and> (size_text t < length text \<longrightarrow>
          find_text t text sidx = Inr (- 1)
          \<and> size_t_sub (size_text t) (length text) = 2 ^ 64 - (length text - size_text t)
          \<and> (0 < sidx \<and> size_text t \<le> sidx \<longrightarrow> rfind t text sidx = Inl OutOfBounds))"
proof (intro conjI impI)
  assume le: "length text \<le> size_text t"
  define midx where "midx = size_text t - length text"
  define s where "s = (if sidx > midx then midx else sidx)"
  have "s + length text \<le> length (m_chars t)"
    using le by (auto simp: s_def midx_def size_text_def)
  then have "\<exists>r. rfind_loop (m_chars t) text s = Inr r"
    using assms(1) by (intro rfind_loop_total) (simp_all add: size_text_def)
  then show "\<exists>r. rfind t text sidx = Inr r"
    using le assms(1) by (auto simp: rfind_def Let_def size_t_sub_no_wrap s_def midx_def)
next
  assume "size_text t < length text"
  then show "find_text t text sidx = Inr (- 1)"
    by (simp add: find_text_def Let_def)
next
  assume "size_text t < length text"
  then show "size_t_sub (size_text t) (length text) = 2 ^ 64 - (length text - size_text t)"
    using assms(2) by (rule size_t_sub_wrap)
next
  assume lt: "size_text t < length text" and sidx: "0 < sidx \<and> size_text t \<le> sidx"
  define midx where "midx = (2 ^ 64 - (length text - size_text t) :: nat)"
  define s where "s = (if sidx > midx then midx else sidx)"
  have midx: "size_text t \<le> midx" "0 < midx" "midx < 2 ^ 64"
    using lt assms by (simp_all add: midx_def)
  have s: "length (m_chars t) \<le> s" "s \<noteq> 0" "s < 2 ^ 64"
    using midx sidx by (auto simp: s_def size_text_def)
  have "text \<noteq> []" using lt by auto
  then have "match_loop (m_chars t) text s 0 = Inl OutOfBounds"
    using s by (intro match_loop_first_read_out)
  then have "rfind_loop (m_chars t) text s = Inl OutOfBounds"
    using s(2) by (subst rfind_loop.simps) simp
  then show "rfind t text sidx = Inl OutOfBounds"
    using lt assms(2) by (auto simp: rfind_def Let_def size_t_sub_wrap s_def midx_def)
qed

text \<open>
  The theorem on "ab" with the pattern "abc" from index 2, and on "abc" with the pattern
  "bc" from index 5.
\<close>

theorem rfind_overlong_pattern_witness:
  "size_text \<lparr>m_chars = [97, 98], m_logtext = [], m_logok = False\<rparr> < 2 ^ 64
   \<and> length [97, 98, 99 :: cchar] < 2 ^ 64
   \<and> rfind \<lparr>m_chars = [97, 98], m_logtext = [], m_logok = False\<rparr> [97, 98, 99] 2 = Inl OutOfBounds
   \<and> find_text \<lparr>m_chars = [97, 98], m_logtext = [], m_logok = False\<rparr> [97, 98, 99] 2 = Inr (- 1)
   \<and> size_t_sub 2 3 = 2 ^ 64 - 1
   \<and> rfind \<lparr>m_chars = [97, 98, 99], m_logtext = [], m_logok = False\<rparr> [98, 99] 5 = Inr 1"
  using rfind_overlong_pattern [of "\<lparr>m_chars = [97, 98], m_logtext = [], m_logok = False\<rparr>"
      "[97, 98, 99]" 2]
    rfind_overlong_pattern [of "\<lparr>m_chars = [97, 98, 99], m_logtext = [], m_logok = False\<rparr>"
      "[98, 99]" 5]
  by (simp add: size_text_def rfind_def Let_def size_t_sub_def size_t_add_def SIZE_MOD_def
      rfind_loop.simps match_loop.simps char_to_int_def)

subsection \<open>replace\<close>











end
